theory Spec2Isabelle
  imports Main "HOL-Library.Word"
begin

section \<open>Calendar page rendering (calendar\_display.c)\<close>

text \<open>
  The module draws a month calendar onto an e-paper canvas through an external graphics
  library. The graphics library, the time library (etime.h) and the fonts are not part of
  the module; the embedding records every call into the graphics library as a command and
  threads the list of commands issued so far (the canvas trace) through the drawing
  functions. Undefined behaviour of the C source (a table read out of range, a
  \<open>sprintf\<close> past the end of its buffer) is an error value.
\<close>

subsection \<open>Machine integers\<close>

type_synonym u8 = "8 word"
type_synonym u16 = "16 word"
type_synonym u32 = "32 word"

text \<open>
  A \<open>uint8_t\<close> local is an \<open>8 word\<close>: storing the value of an \<open>int\<close> expression into it
  reduces the value modulo 256, which is what the word operations compute. An argument
  expression such as \<open>x_start + grid_width\<close> is evaluated in \<open>int\<close> after the integer
  promotions; it is modelled as \<open>int\<close> arithmetic over \<open>uint\<close> of the operands (all values
  stay far below \<open>2^31\<close>).
\<close>

subsection \<open>Draw commands\<close>

datatype color = WHITE | BLACK

datatype font = EPD_ASCII_11X16 | EPD_ASCII_7X12 | EPD_FontUTF8_16x16 | FONT_0

datatype dot_pixel = DOT_PIXEL_1X1

datatype line_style = LINE_STYLE_SOLID

datatype draw_fill = DRAW_FILL_FULL

text \<open>
  One constructor per graphics primitive the module calls, with the arguments in the order
  of the call. Coordinates are the values of the argument expressions.
\<close>

datatype cmd =
    Paint_Clear color
  | Paint_DrawLine int int int int color dot_pixel line_style
  | Paint_DrawRectangle int int int int color dot_pixel draw_fill
  | EPD_DrawUTF8 int int int string font font color color

type_synonym canvas = "cmd list"

datatype error = OutOfBounds | BufferOverflow

subsection \<open>External collaborators\<close>

text \<open>
  Modelled from the spec: the type \<open>tm_t\<close> of etime.h is not among the sources. The spec
  lists the calendar fields as integers; the fields the module reads are kept, as \<open>int\<close>.
\<close>

record tm_t =
  tm_year :: int
  tm_mon :: int
  tm_mday :: int
  tm_hour :: int
  tm_min :: int

text \<open>
  The functions and the macro of etime.h that the module uses are parameters of the
  embedding: \<open>is_leap\<close> (its result as stored into the \<open>uint8_t leap\<close>),
  \<open>day_of_week_get\<close> (its result as returned through \<open>uint8_t\<close>), \<open>transformTime\<close>
  and \<open>YEAR0\<close>.
\<close>

record externals =
  is_leap :: "u16 \<Rightarrow> u8"
  day_of_week_get :: "u8 \<Rightarrow> u8 \<Rightarrow> u16 \<Rightarrow> u8"
  transformTime :: "u32 \<Rightarrow> tm_t"
  YEAR0 :: int

subsection \<open>Constant tables\<close>

definition days_in_month :: "u8 list list" where
  "days_in_month =
     [[31, 28, 31, 30, 31, 30, 31, 31, 30, 31, 30, 31],
      [31, 29, 31, 30, 31, 30, 31, 31, 30, 31, 30, 31]]"

text \<open>The seven weekday labels, as the UTF-8 bytes of the source's string literals.\<close>

definition week_names_cn :: "string list" where
  "week_names_cn =
     [[CHR 0xE6, CHR 0x97, CHR 0xA5],
      [CHR 0xE4, CHR 0xB8, CHR 0x80],
      [CHR 0xE4, CHR 0xBA, CHR 0x8C],
      [CHR 0xE4, CHR 0xB8, CHR 0x89],
      [CHR 0xE5, CHR 0x9B, CHR 0x9B],
      [CHR 0xE4, CHR 0xBA, CHR 0x94],
      [CHR 0xE5, CHR 0x85, CHR 0xAD]]"

subsection \<open>Formatting\<close>

definition digit_char :: "nat \<Rightarrow> char" where
  "digit_char n = ''0123456789'' ! n"

fun dec :: "nat \<Rightarrow> string" where
  "dec n = (if n < 10 then [digit_char n] else dec (n div 10) @ [digit_char (n mod 10)])"

declare dec.simps [simp del]

text \<open>The conversion \<open>%d\<close> of \<open>sprintf\<close>.\<close>

definition fmt_d :: "int \<Rightarrow> string" where
  "fmt_d i = (if i < 0 then CHR ''-'' # dec (nat (- i)) else dec (nat i))"

text \<open>The conversion \<open>%02d\<close>: at least two characters, padded with a zero.\<close>

definition fmt_02d :: "int \<Rightarrow> string" where
  "fmt_02d i = (let s = fmt_d i in if length s < 2 then CHR ''0'' # s else s)"

text \<open>
  \<open>sprintf\<close> into a buffer of \<open>cap\<close> bytes writes the text and a terminating NUL; writing
  past the buffer is undefined behaviour.
\<close>

definition sprintf_into :: "nat \<Rightarrow> string \<Rightarrow> error + string" where
  "sprintf_into cap s = (if length s + 1 \<le> cap then Inr s else Inl BufferOverflow)"

subsection \<open>Calendar fields\<close>

definition get_first_day_of_month :: "externals \<Rightarrow> u16 \<Rightarrow> u8 \<Rightarrow> u8" where
  "get_first_day_of_month ext year month = day_of_week_get ext month 1 year"

text \<open>
  The index expression \<open>month - 1\<close>: \<open>month\<close> is promoted to \<open>int\<close> before the
  subtraction.
\<close>

definition month_index :: "u8 \<Rightarrow> int" where
  "month_index month = uint month - 1"

text \<open>The read \<open>days_in_month[leap][idx]\<close>, with the bounds of the \<open>[2][12]\<close> table.\<close>

definition days_in_month_at :: "u8 \<Rightarrow> int \<Rightarrow> error + u8" where
  "days_in_month_at leap idx =
     (if unat leap < 2 \<and> 0 \<le> idx \<and> idx < 12
      then Inr (days_in_month ! unat leap ! nat idx)
      else Inl OutOfBounds)"

definition get_days_in_month :: "externals \<Rightarrow> u16 \<Rightarrow> u8 \<Rightarrow> error + u8" where
  "get_days_in_month ext year month =
     (let leap = is_leap ext year
      in days_in_month_at leap (month_index month))"

subsection \<open>Title\<close>

definition title_text :: "u16 \<Rightarrow> u8 \<Rightarrow> string" where
  "title_text year month =
     fmt_d (uint year) @ [CHR 0xE5, CHR 0xB9, CHR 0xB4] @
     fmt_d (uint month) @ [CHR 0xE6, CHR 0x9C, CHR 0x88]"

definition draw_calendar_title :: "u16 \<Rightarrow> u8 \<Rightarrow> canvas \<Rightarrow> error + canvas" where
  "draw_calendar_title year month cv =
     (case sprintf_into 20 (title_text year month) of
        Inl e \<Rightarrow> Inl e
      | Inr title_buf \<Rightarrow>
          Inr (cv @ [EPD_DrawUTF8 50 2 1 title_buf EPD_ASCII_11X16 EPD_FontUTF8_16x16
                      BLACK WHITE]))"

subsection \<open>Week header\<close>

text \<open>The loop \<open>for (uint8_t i = 0; i < 7; i++)\<close> of \<open>draw_week_header\<close>.\<close>

function week_header_loop :: "u8 \<Rightarrow> u8 \<Rightarrow> u8 \<Rightarrow> u8 \<Rightarrow> canvas \<Rightarrow> canvas" where
  "week_header_loop x_start y_pos cell_width i cv =
     (if i < 7
      then
        let x_pos = x_start + i * cell_width
        in week_header_loop x_start y_pos cell_width (i + 1)
             (cv @ [EPD_DrawUTF8 (uint x_pos + 8) (uint y_pos) 0 (week_names_cn ! unat i)
                      EPD_ASCII_7X12 EPD_FontUTF8_16x16 BLACK WHITE])
      else cv)"
  by pat_completeness auto
termination
  by (relation "measure (\<lambda>(x_start, y_pos, cell_width, i, cv). 7 - unat i)")
    (auto simp: word_less_nat_alt unat_word_ariths)

declare week_header_loop.simps [simp del]

definition draw_week_header :: "canvas \<Rightarrow> canvas" where
  "draw_week_header cv =
     (let x_start = 10; y_pos = 25; cell_width = 28
      in week_header_loop x_start y_pos cell_width 0 cv)"

subsection \<open>Grid\<close>

text \<open>The loop \<open>for (uint8_t i = 0; i <= 6; i++)\<close> drawing the horizontal lines.\<close>

function grid_rows_loop :: "u8 \<Rightarrow> u8 \<Rightarrow> u8 \<Rightarrow> u8 \<Rightarrow> u8 \<Rightarrow> canvas \<Rightarrow> canvas" where
  "grid_rows_loop x_start y_start cell_height grid_width i cv =
     (if i \<le> 6
      then
        let y = y_start + i * cell_height
        in grid_rows_loop x_start y_start cell_height grid_width (i + 1)
             (cv @ [Paint_DrawLine (uint x_start) (uint y) (uint x_start + uint grid_width)
                      (uint y) BLACK DOT_PIXEL_1X1 LINE_STYLE_SOLID])
      else cv)"
  by pat_completeness auto
termination
  by (relation "measure (\<lambda>(x_start, y_start, cell_height, grid_width, i, cv). 7 - unat i)")
    (auto simp: word_le_nat_alt unat_word_ariths)

declare grid_rows_loop.simps [simp del]

text \<open>The loop \<open>for (uint8_t i = 0; i <= 7; i++)\<close> drawing the vertical lines.\<close>

function grid_cols_loop :: "u8 \<Rightarrow> u8 \<Rightarrow> u8 \<Rightarrow> u8 \<Rightarrow> u8 \<Rightarrow> canvas \<Rightarrow> canvas" where
  "grid_cols_loop x_start y_start cell_width grid_height i cv =
     (if i \<le> 7
      then
        let x = x_start + i * cell_width
        in grid_cols_loop x_start y_start cell_width grid_height (i + 1)
             (cv @ [Paint_DrawLine (uint x) (uint y_start) (uint x)
                      (uint y_start + uint grid_height) BLACK DOT_PIXEL_1X1 LINE_STYLE_SOLID])
      else cv)"
  by pat_completeness auto
termination
  by (relation "measure (\<lambda>(x_start, y_start, cell_width, grid_height, i, cv). 8 - unat i)")
    (auto simp: word_le_nat_alt unat_word_ariths)

declare grid_cols_loop.simps [simp del]

definition draw_calendar_grid :: "canvas \<Rightarrow> canvas" where
  "draw_calendar_grid cv =
     (let x_start = 10; y_start = 40; cell_width = 28; cell_height = 12;
          grid_width = 7 * cell_width;
          grid_height = 6 * cell_height;
          cv1 = grid_rows_loop x_start y_start cell_height grid_width 0 cv
      in grid_cols_loop x_start y_start cell_width grid_height 0 cv1)"

subsection \<open>Day numbers\<close>

lemma dec_nonempty: "1 \<le> length (dec n)"
  by (subst dec.simps) simp

lemma dec_three_digits: "100 \<le> n \<Longrightarrow> 3 \<le> length (dec n)"
proof -
  assume h: "100 \<le> n"
  have a: "dec n = dec (n div 10) @ [digit_char (n mod 10)]"
    using h by (subst dec.simps) simp
  have "10 \<le> n div 10" using h by simp
  then have b: "dec (n div 10) = dec (n div 10 div 10) @ [digit_char (n div 10 mod 10)]"
    by (subst dec.simps) simp
  show ?thesis
    using dec_nonempty [of "n div 10 div 10"] by (simp add: a b)
qed

lemma sprintf_day_fits:
  "sprintf_into 3 (fmt_d (uint (day :: u8))) = Inr day_buf \<Longrightarrow> unat day < 100"
proof (rule ccontr)
  assume s: "sprintf_into 3 (fmt_d (uint day)) = Inr day_buf" and n: "\<not> unat day < 100"
  from n have "3 \<le> length (dec (unat day))"
    by (intro dec_three_digits) simp
  with s show False
    by (simp add: sprintf_into_def fmt_d_def split: if_splits)
qed

text \<open>
  The commands of one iteration of the loop of \<open>draw_calendar_dates\<close>: the text anchor,
  and either the filled rectangle with the inverted number or the plain number.
\<close>

definition date_cell ::
  "u8 \<Rightarrow> u8 \<Rightarrow> u8 \<Rightarrow> u8 \<Rightarrow> u8 \<Rightarrow> u8 \<Rightarrow> u8 \<Rightarrow> u8 \<Rightarrow> string \<Rightarrow> cmd list" where
  "date_cell x_start y_start cell_width cell_height current_day day row col day_buf =
     (let x_pos = x_start + col * cell_width + 8;
          y_pos = y_start + row * cell_height + 2
      in if day = current_day
         then [Paint_DrawRectangle
                 (uint x_start + uint col * uint cell_width + 1)
                 (uint y_start + uint row * uint cell_height + 1)
                 (uint x_start + (uint col + 1) * uint cell_width - 1)
                 (uint y_start + (uint row + 1) * uint cell_height - 1)
                 BLACK DOT_PIXEL_1X1 DRAW_FILL_FULL,
               EPD_DrawUTF8 (uint x_pos) (uint y_pos) 0 day_buf EPD_ASCII_7X12 FONT_0
                 WHITE BLACK]
         else [EPD_DrawUTF8 (uint x_pos) (uint y_pos) 0 day_buf EPD_ASCII_7X12 FONT_0
                 BLACK WHITE])"

text \<open>
  The loop \<open>for (uint8_t day = 1; day <= days_count; day++)\<close> with its cursor
  \<open>(row, col)\<close>. The day number is printed into \<open>char day_buf[3]\<close>.
\<close>

function dates_loop ::
  "u8 \<Rightarrow> u8 \<Rightarrow> u8 \<Rightarrow> u8 \<Rightarrow> u8 \<Rightarrow> u8 \<Rightarrow> u8 \<Rightarrow> u8 \<Rightarrow> u8 \<Rightarrow> canvas \<Rightarrow> error + canvas" where
  "dates_loop x_start y_start cell_width cell_height days_count current_day day row col cv =
     (if day \<le> days_count
      then
        (case sprintf_into 3 (fmt_d (uint day)) of
           Inl e \<Rightarrow> Inl e
         | Inr day_buf \<Rightarrow>
             let cv' = cv @ date_cell x_start y_start cell_width cell_height current_day
                             day row col day_buf;
                 col' = col + 1
             in if col' \<ge> 7
                then dates_loop x_start y_start cell_width cell_height days_count current_day
                       (day + 1) (row + 1) 0 cv'
                else dates_loop x_start y_start cell_width cell_height days_count current_day
                       (day + 1) row col' cv')
      else Inr cv)"
  by pat_completeness auto
termination
proof (relation "measure (\<lambda>(x_start, y_start, cell_width, cell_height, days_count,
                            current_day, day, row, col, cv). 256 - unat day)")
  show "wf (measure (\<lambda>(x_start, y_start, cell_width, cell_height, days_count,
                            current_day, day, row, col, cv). 256 - unat (day :: u8)))"
    by simp
qed (auto dest!: sprintf_day_fits simp: unat_word_ariths)

declare dates_loop.simps [simp del]

definition draw_calendar_dates ::
  "externals \<Rightarrow> u16 \<Rightarrow> u8 \<Rightarrow> u8 \<Rightarrow> canvas \<Rightarrow> error + canvas" where
  "draw_calendar_dates ext year month current_day cv =
     (let x_start = 10; y_start = 40; cell_width = 28; cell_height = 12;
          first_day = get_first_day_of_month ext year month
      in case get_days_in_month ext year month of
           Inl e \<Rightarrow> Inl e
         | Inr days_count \<Rightarrow>
             dates_loop x_start y_start cell_width cell_height days_count current_day
               1 0 first_day cv)"

subsection \<open>The page\<close>

definition time_text :: "tm_t \<Rightarrow> string" where
  "time_text tm = fmt_02d (tm_hour tm) @ CHR '':'' # fmt_02d (tm_min tm)"

definition draw_calendar_page :: "externals \<Rightarrow> u32 \<Rightarrow> canvas \<Rightarrow> error + canvas" where
  "draw_calendar_page ext unix_time cv =
     (let tm = transformTime ext unix_time;
          year = (word_of_int (tm_year tm + YEAR0 ext) :: u16);
          month = (word_of_int (tm_mon tm + 1) :: u8);
          current_day = (word_of_int (tm_mday tm) :: u8);
          cv1 = cv @ [Paint_Clear WHITE]
      in case draw_calendar_title year month cv1 of
           Inl e \<Rightarrow> Inl e
         | Inr cv2 \<Rightarrow>
             let cv3 = draw_week_header cv2;
                 cv4 = draw_calendar_grid cv3
             in (case draw_calendar_dates ext year month current_day cv4 of
                   Inl e \<Rightarrow> Inl e
                 | Inr cv5 \<Rightarrow>
                     (case sprintf_into 20 (time_text tm) of
                        Inl e \<Rightarrow> Inl e
                      | Inr time_buf \<Rightarrow>
                          Inr (cv5 @ [EPD_DrawUTF8 150 115 1 time_buf EPD_ASCII_11X16
                                        EPD_FontUTF8_16x16 BLACK WHITE]))))"

subsection \<open>Reference definitions\<close>

text \<open>The Gregorian leap-year rule, as the spec states it for the external \<open>is_leap\<close>.\<close>

definition gregorian_leap :: "nat \<Rightarrow> bool" where
  "gregorian_leap y = (y mod 4 = 0 \<and> (y mod 100 \<noteq> 0 \<or> y mod 400 = 0))"

text \<open>The canonical Gregorian month lengths, stated without the table.\<close>

definition gregorian_days :: "bool \<Rightarrow> nat \<Rightarrow> nat" where
  "gregorian_days leap m =
     (if m = 2 then (if leap then 29 else 28)
      else if m = 4 \<or> m = 6 \<or> m = 9 \<or> m = 11 then 30
      else 31)"

text \<open>
  The drawing of one day with every coordinate computed in unbounded integers, for the
  comparison with the \<open>uint8_t\<close> arithmetic of \<open>date_cell\<close>.
\<close>

definition date_cell_exact :: "u8 \<Rightarrow> nat \<Rightarrow> nat \<Rightarrow> nat \<Rightarrow> cmd list" where
  "date_cell_exact current_day day row col =
     (if day = unat current_day
      then [Paint_DrawRectangle
              (10 + int col * 28 + 1) (40 + int row * 12 + 1)
              (10 + (int col + 1) * 28 - 1) (40 + (int row + 1) * 12 - 1)
              BLACK DOT_PIXEL_1X1 DRAW_FILL_FULL,
            EPD_DrawUTF8 (10 + int col * 28 + 8) (40 + int row * 12 + 2) 0 (dec day)
              EPD_ASCII_7X12 FONT_0 WHITE BLACK]
      else [EPD_DrawUTF8 (10 + int col * 28 + 8) (40 + int row * 12 + 2) 0 (dec day)
              EPD_ASCII_7X12 FONT_0 BLACK WHITE])"

text \<open>
  The days \<open>1..count\<close> drawn at the cells of the closed form: day \<open>d\<close> in row
  \<open>(first + d - 1) div 7\<close> and column \<open>(first + d - 1) mod 7\<close>.
\<close>

definition dates_exact :: "nat \<Rightarrow> nat \<Rightarrow> u8 \<Rightarrow> cmd list" where
  "dates_exact first count current_day =
     concat (map (\<lambda>d. date_cell_exact current_day d
                         ((first + d - 1) div 7) ((first + d - 1) mod 7))
               [1..<count + 1])"

definition week_header_exact :: "cmd list" where
  "week_header_exact =
     map (\<lambda>i. EPD_DrawUTF8 (10 + int i * 28 + 8) 25 0 (week_names_cn ! i)
            EPD_ASCII_7X12 EPD_FontUTF8_16x16 BLACK WHITE) [0..<7]"

definition grid_exact :: "cmd list" where
  "grid_exact =
     map (\<lambda>i. Paint_DrawLine 10 (40 + int i * 12) (10 + 7 * 28) (40 + int i * 12)
            BLACK DOT_PIXEL_1X1 LINE_STYLE_SOLID) [0..<7] @
     map (\<lambda>i. Paint_DrawLine (10 + int i * 28) 40 (10 + int i * 28) (40 + 6 * 12)
            BLACK DOT_PIXEL_1X1 LINE_STYLE_SOLID) [0..<8]"

text \<open>The coordinates a command passes to the graphics library.\<close>

fun cmd_coords :: "cmd \<Rightarrow> int list" where
  "cmd_coords (Paint_Clear c) = []"
| "cmd_coords (Paint_DrawLine x0 y0 x1 y1 c d l) = [x0, y0, x1, y1]"
| "cmd_coords (Paint_DrawRectangle x0 y0 x1 y1 c d f) = [x0, y0, x1, y1]"
| "cmd_coords (EPD_DrawUTF8 x y g s f1 f2 fg bg) = [x, y]"

definition coords_within :: "int \<Rightarrow> cmd \<Rightarrow> bool" where
  "coords_within b c = list_all (\<lambda>v. 0 \<le> v \<and> v \<le> b) (cmd_coords c)"

text \<open>Classification of the commands of the date renderer.\<close>

fun is_rectangle :: "cmd \<Rightarrow> bool" where
  "is_rectangle (Paint_DrawRectangle x0 y0 x1 y1 c d f) = (c = BLACK \<and> f = DRAW_FILL_FULL)"
| "is_rectangle _ = False"

fun is_inverted_text :: "cmd \<Rightarrow> bool" where
  "is_inverted_text (EPD_DrawUTF8 x y g s f1 f2 fg bg) = (fg = WHITE \<and> bg = BLACK)"
| "is_inverted_text _ = False"

fun is_plain_text :: "cmd \<Rightarrow> bool" where
  "is_plain_text (EPD_DrawUTF8 x y g s f1 f2 fg bg) = (fg = BLACK \<and> bg = WHITE)"
| "is_plain_text _ = False"

text \<open>The texts a command draws: one for a text-draw command, none otherwise.\<close>

fun cmd_texts :: "cmd \<Rightarrow> string list" where
  "cmd_texts (EPD_DrawUTF8 x y g s f1 f2 fg bg) = [s]"
| "cmd_texts _ = []"

subsection \<open>A concrete time library\<close>

text \<open>
  An instance of the external collaborators for evaluating the renderer on concrete
  inputs: the Gregorian leap rule, Sakamoto's day-of-week formula (0 = Sunday), a clock
  that decomposes every timestamp to the given fields, and \<open>YEAR0 = 1900\<close>.
\<close>

definition sakamoto :: "nat \<Rightarrow> nat \<Rightarrow> nat \<Rightarrow> nat" where
  "sakamoto y m d =
     (let y' = (if m < 3 then y - 1 else y)
      in (y' + y' div 4 - y' div 100 + y' div 400
          + [0, 3, 2, 5, 0, 3, 5, 1, 4, 6, 2, 4] ! (m - 1) + d) mod 7)"

definition sample_ext :: "tm_t \<Rightarrow> externals" where
  "sample_ext tm =
     \<lparr> is_leap = (\<lambda>y. if gregorian_leap (unat y) then 1 else 0),
       day_of_week_get = (\<lambda>m d y. of_nat (sakamoto (unat y) (unat m) (unat d))),
       transformTime = (\<lambda>t. tm),
       YEAR0 = 1900 \<rparr>"

text \<open>The fields of 15 February 2024, 09:05.\<close>

definition sample_tm :: tm_t where
  "sample_tm = \<lparr> tm_year = 124, tm_mon = 1, tm_mday = 15, tm_hour = 9, tm_min = 5 \<rparr>"

section \<open>Properties\<close>

subsection \<open>Formatting and loops\<close>

lemma dec_length_le: "n < 10 ^ k \<Longrightarrow> 1 \<le> k \<Longrightarrow> length (dec n) \<le> k"
proof (induction k arbitrary: n)
  case 0
  then show ?case by simp
next
  case (Suc k)
  show ?case
  proof (cases "n < 10")
    case True
    then show ?thesis by (subst dec.simps) simp
  next
    case False
    then have k: "1 \<le> k" using Suc.prems by (cases k) auto
    have "n div 10 < 10 ^ k" using Suc.prems by (simp add: less_mult_imp_div_less mult.commute)
    then have "length (dec (n div 10)) \<le> k" using Suc.IH k by blast
    then show ?thesis using False by (subst dec.simps) simp
  qed
qed

lemma fmt_d_u8: "fmt_d (uint (w :: u8)) = dec (unat w)"
  by (simp add: fmt_d_def)

lemma fmt_d_u16: "fmt_d (uint (w :: u16)) = dec (unat w)"
  by (simp add: fmt_d_def)

lemma sprintf_day_ok:
  "unat (day :: u8) < 100 \<Longrightarrow> sprintf_into 3 (fmt_d (uint day)) = Inr (dec (unat day))"
  using dec_length_le [of "unat day" 2] by (simp add: sprintf_into_def fmt_d_u8)

lemma dates_loop_stop:
  "\<not> day \<le> dc \<Longrightarrow> dates_loop xs ys cw ch dc cur day row col cv = Inr cv"
  by (subst dates_loop.simps) simp

lemma dates_loop_step:
  "day \<le> dc \<Longrightarrow> unat day < 100 \<Longrightarrow>
   dates_loop xs ys cw ch dc cur day row col cv =
     dates_loop xs ys cw ch dc cur (day + 1)
       (if col + 1 \<ge> 7 then row + 1 else row) (if col + 1 \<ge> 7 then 0 else col + 1)
       (cv @ date_cell xs ys cw ch cur day row col (dec (unat day)))"
  by (subst dates_loop.simps) (simp add: sprintf_day_ok Let_def)

lemma date_cell_texts:
  "concat (map cmd_texts (date_cell xs ys cw ch cur day row col buf)) = [buf]"
  by (simp add: date_cell_def Let_def)

lemma dates_loop_frame:
  "unat dc < 100 \<Longrightarrow>
   \<exists>ds. (\<forall>cv. dates_loop xs ys cw ch dc cur day row col cv = Inr (cv @ ds))
      \<and> concat (map cmd_texts ds) = map dec [unat day..<unat dc + 1]"
proof (induction "unat dc + 1 - unat day" arbitrary: day row col rule: less_induct)
  case less
  show ?case
  proof (cases "day \<le> dc")
    case False
    then have "\<forall>cv. dates_loop xs ys cw ch dc cur day row col cv = Inr (cv @ [])"
      by (simp add: dates_loop_stop)
    moreover have "[unat day..<unat dc + 1] = []"
      using False by (simp add: word_le_nat_alt)
    ultimately show ?thesis by (intro exI [of _ "[]"]) simp
  next
    case True
    then have le: "unat day \<le> unat dc" by (simp add: word_le_nat_alt)
    then have d: "unat day < 100" using less.prems by simp
    then have s: "unat (day + 1) = unat day + 1" by (simp add: unat_word_ariths)
    have "unat dc + 1 - unat (day + 1) < unat dc + 1 - unat day"
      using le s by simp
    from less.hyps [OF this less.prems]
    obtain ds where ds: "\<And>cv. dates_loop xs ys cw ch dc cur (day + 1)
       (if col + 1 \<ge> 7 then row + 1 else row) (if col + 1 \<ge> 7 then 0 else col + 1) cv
         = Inr (cv @ ds)"
      and tx: "concat (map cmd_texts ds) = map dec [unat (day + 1)..<unat dc + 1]"
      by blast
    let ?c = "date_cell xs ys cw ch cur day row col (dec (unat day))"
    have "\<forall>cv. dates_loop xs ys cw ch dc cur day row col cv = Inr (cv @ (?c @ ds))"
      by (simp add: dates_loop_step [OF True d] ds)
    moreover have "[unat day..<unat dc + 1] = unat day # [unat (day + 1)..<unat dc + 1]"
      using le s by (simp add: upt_conv_Cons)
    then have "concat (map cmd_texts (?c @ ds)) = map dec [unat day..<unat dc + 1]"
      by (simp add: date_cell_texts tx)
    ultimately show ?thesis by blast
  qed
qed

lemma concat_map_upt_Suc:
  "concat (map g [0..<Suc m]) = g 0 @ concat (map (\<lambda>j. g (Suc j)) [0..<m])"
  by (simp add: upt_conv_Cons map_Suc_upt [symmetric] o_def del: upt_Suc)

lemma dates_loop_closed:
  "unat dc < 100 \<Longrightarrow> unat col < 7 \<Longrightarrow> unat row + (unat dc + 1 - unat day) \<le> 200 \<Longrightarrow>
   dates_loop xs ys cw ch dc cur day row col cv =
     Inr (cv @ concat (map (\<lambda>j. date_cell xs ys cw ch cur (of_nat (unat day + j))
                              (of_nat ((7 * unat row + unat col + j) div 7))
                              (of_nat ((7 * unat row + unat col + j) mod 7))
                              (dec (unat day + j)))
                        [0..<unat dc + 1 - unat day]))"
proof (induction "unat dc + 1 - unat day" arbitrary: day row col cv rule: less_induct)
  case less
  let ?f = "\<lambda>day row col j. date_cell xs ys cw ch cur (of_nat (unat day + j))
                              (of_nat ((7 * unat row + unat col + j) div 7))
                              (of_nat ((7 * unat row + unat col + j) mod 7))
                              (dec (unat day + j))"
  show ?case
  proof (cases "day \<le> dc")
    case False
    then have "unat dc + 1 - unat day = 0" by (simp add: word_le_nat_alt)
    then show ?thesis using False by (simp add: dates_loop_stop)
  next
    case True
    then have le: "unat day \<le> unat dc" by (simp add: word_le_nat_alt)
    then have d: "unat day < 100" using less.prems by simp
    then have s: "unat (day + 1) = unat day + 1" by (simp add: unat_word_ariths)
    define row' where "row' = (if col + 1 \<ge> 7 then row + 1 else row)"
    define col' where "col' = (if col + 1 \<ge> 7 then 0 else col + 1)"
    define m where "m = unat dc + 1 - unat (day + 1)"
    have n: "unat dc + 1 - unat day = Suc m" using le s by (simp add: m_def)
    have c1: "unat (col + 1) = unat col + 1" using less.prems by (simp add: unat_word_ariths)
    have r1: "unat (row + 1) = unat row + 1" using less.prems n by (simp add: unat_word_ariths)
    have c7: "(col + 1 \<ge> 7) = (unat col = 6)"
      using less.prems c1 by (auto simp: word_le_nat_alt)
    have col': "unat col' < 7" using less.prems c1 by (auto simp: col'_def c7)
    have idx: "7 * unat row' + unat col' = 7 * unat row + unat col + 1"
      using c1 r1 by (auto simp: row'_def col'_def c7)
    have row': "unat row' + m \<le> 200"
      using less.prems n r1 by (auto simp: row'_def m_def)
    have "m < unat dc + 1 - unat day" using n by simp
    then have IH: "dates_loop xs ys cw ch dc cur (day + 1) row' col'
         (cv @ date_cell xs ys cw ch cur day row col (dec (unat day))) =
       Inr ((cv @ date_cell xs ys cw ch cur day row col (dec (unat day))) @
            concat (map (?f (day + 1) row' col') [0..<m]))"
      unfolding m_def using less.hyps [of "day + 1" col' row'] less.prems(1) col' row'
      by (simp add: m_def)
    have f0: "?f day row col 0 = date_cell xs ys cw ch cur day row col (dec (unat day))"
      using less.prems by simp
    have "(\<lambda>j. ?f day row col (Suc j)) = ?f (day + 1) row' col'"
      by (rule ext) (simp add: s idx)
    then have "concat (map (?f day row col) [0..<Suc m]) =
            ?f day row col 0 @ concat (map (?f (day + 1) row' col') [0..<m])"
      by (simp only: concat_map_upt_Suc)
    then show ?thesis
      unfolding n dates_loop_step [OF True d] row'_def [symmetric] col'_def [symmetric] IH
      by (simp only: f0 append_assoc)
  qed
qed

lemma week_header_loop_closed:
  "week_header_loop xs yp cw i cv =
     cv @ map (\<lambda>k. EPD_DrawUTF8 (uint (xs + of_nat k * cw) + 8) (uint yp) 0 (week_names_cn ! k)
                 EPD_ASCII_7X12 EPD_FontUTF8_16x16 BLACK WHITE) [unat i..<7]"
proof (induction xs yp cw i cv rule: week_header_loop.induct)
  case (1 xs yp cw i cv)
  show ?case
  proof (cases "i < 7")
    case True
    then have lt: "unat i < 7" by (simp add: word_less_nat_alt)
    then have s: "unat (i + 1) = Suc (unat i)" by (simp add: unat_word_ariths)
    have u: "[unat i..<7] = unat i # [Suc (unat i)..<7]"
      using lt by (simp add: upt_conv_Cons)
    show ?thesis
      using "1.IH" [OF True refl] True
      by (subst week_header_loop.simps) (simp add: s u Let_def)
  next
    case False
    then have "7 \<le> unat i" by (simp add: word_less_nat_alt)
    then show ?thesis using False
      by (subst week_header_loop.simps) simp
  qed
qed

lemma grid_rows_loop_closed:
  "grid_rows_loop xs ys ch gw i cv =
     cv @ map (\<lambda>k. Paint_DrawLine (uint xs) (uint (ys + of_nat k * ch)) (uint xs + uint gw)
                 (uint (ys + of_nat k * ch)) BLACK DOT_PIXEL_1X1 LINE_STYLE_SOLID) [unat i..<7]"
proof (induction xs ys ch gw i cv rule: grid_rows_loop.induct)
  case (1 xs ys ch gw i cv)
  show ?case
  proof (cases "i \<le> 6")
    case True
    then have lt: "unat i < 7" by (simp add: word_le_nat_alt)
    then have s: "unat (i + 1) = Suc (unat i)" by (simp add: unat_word_ariths)
    have u: "[unat i..<7] = unat i # [Suc (unat i)..<7]"
      using lt by (simp add: upt_conv_Cons)
    show ?thesis
      using "1.IH" [OF True refl] True
      by (subst grid_rows_loop.simps) (simp add: s u Let_def)
  next
    case False
    then have "7 \<le> unat i" by (simp add: word_le_nat_alt)
    then show ?thesis using False
      by (subst grid_rows_loop.simps) simp
  qed
qed

lemma grid_cols_loop_closed:
  "grid_cols_loop xs ys cw gh i cv =
     cv @ map (\<lambda>k. Paint_DrawLine (uint (xs + of_nat k * cw)) (uint ys) (uint (xs + of_nat k * cw))
                 (uint ys + uint gh) BLACK DOT_PIXEL_1X1 LINE_STYLE_SOLID) [unat i..<8]"
proof (induction xs ys cw gh i cv rule: grid_cols_loop.induct)
  case (1 xs ys cw gh i cv)
  show ?case
  proof (cases "i \<le> 7")
    case True
    then have lt: "unat i < 8" by (simp add: word_le_nat_alt)
    then have s: "unat (i + 1) = Suc (unat i)" by (simp add: unat_word_ariths)
    have u: "[unat i..<8] = unat i # [Suc (unat i)..<8]"
      using lt by (simp add: upt_conv_Cons)
    show ?thesis
      using "1.IH" [OF True refl] True
      by (subst grid_cols_loop.simps) (simp add: s u Let_def)
  next
    case False
    then have "8 \<le> unat i" by (simp add: word_le_nat_alt)
    then show ?thesis using False
      by (subst grid_cols_loop.simps) simp
  qed
qed

lemma upt_0_7: "[0..<7] = [0, 1, 2, 3, 4, 5, 6]"
  by (simp add: upt_rec)

lemma upt_0_8: "[0..<8] = [0, 1, 2, 3, 4, 5, 6, 7]"
  by (simp add: upt_rec)

lemma draw_week_header_exact: "draw_week_header cv = cv @ week_header_exact"
  by (simp add: draw_week_header_def week_header_loop_closed week_header_exact_def upt_0_7)

lemma draw_calendar_grid_exact: "draw_calendar_grid cv = cv @ grid_exact"
  by (simp add: draw_calendar_grid_def grid_rows_loop_closed grid_cols_loop_closed
      grid_exact_def upt_0_7 upt_0_8)

lemma title_text_length: "length (title_text year month) \<le> 14"
proof -
  have "unat year < 2 ^ LENGTH(16)" by (rule unsigned_less)
  then have "unat year < 10 ^ 5" by simp
  then have y: "length (dec (unat year)) \<le> 5" by (rule dec_length_le) simp
  have "unat month < 2 ^ LENGTH(8)" by (rule unsigned_less)
  then have "unat month < 10 ^ 3" by simp
  then have m: "length (dec (unat month)) \<le> 3" by (rule dec_length_le) simp
  show ?thesis using y m by (simp add: title_text_def fmt_d_u8 fmt_d_u16)
qed

lemma draw_calendar_title_cmd:
  "draw_calendar_title year month cv =
     Inr (cv @ [EPD_DrawUTF8 50 2 1 (title_text year month) EPD_ASCII_11X16
                  EPD_FontUTF8_16x16 BLACK WHITE])"
  using title_text_length [of year month]
  by (simp add: draw_calendar_title_def sprintf_into_def)

subsection \<open>Grid lines\<close>

text \<open>
  Claim C6. On every call \<open>draw_calendar_grid\<close> draws exactly 7 horizontal lines, at
  \<open>y = y_start + i * cell_height\<close> for \<open>i = 0..6\<close>, each from \<open>x_start\<close> to
  \<open>x_start + 7 * cell_width\<close>, and then exactly 8 vertical lines, at
  \<open>x = x_start + i * cell_width\<close> for \<open>i = 0..7\<close>, each from \<open>y_start\<close> to
  \<open>y_start + 6 * cell_height\<close>, with \<open>x_start = 10\<close>, \<open>y_start = 40\<close>,
  \<open>cell_width = 28\<close> and \<open>cell_height = 12\<close>.
\<close>

theorem draw_calendar_grid_lines:
  "draw_calendar_grid cv =
     cv @ map (\<lambda>i. Paint_DrawLine 10 (40 + int i * 12) (10 + 7 * 28) (40 + int i * 12)
                 BLACK DOT_PIXEL_1X1 LINE_STYLE_SOLID) [0..<7]
        @ map (\<lambda>i. Paint_DrawLine (10 + int i * 28) 40 (10 + int i * 28) (40 + 6 * 12)
                 BLACK DOT_PIXEL_1X1 LINE_STYLE_SOLID) [0..<8]"
  by (simp only: draw_calendar_grid_exact grid_exact_def)

subsection \<open>Weekday labels\<close>

text \<open>
  Claim C7, as amended. \<open>draw_week_header\<close> issues exactly seven text-draw commands, one
  for each of the seven weekday labels in index order 0..6, at the fixed y-coordinate 25;
  the x-coordinate of the \<open>i\<close>-th label is \<open>x_start + i * cell_width + 8\<close> (the source
  passes \<open>x_pos + 8\<close>), with \<open>x_start = 10\<close> and \<open>cell_width = 28\<close>.
\<close>

theorem draw_week_header_labels:
  "draw_week_header cv =
     cv @ map (\<lambda>i. EPD_DrawUTF8 (10 + int i * 28 + 8) 25 0 (week_names_cn ! i)
                 EPD_ASCII_7X12 EPD_FontUTF8_16x16 BLACK WHITE) [0..<7]
   \<and> length week_names_cn = 7"
  by (simp add: draw_week_header_exact week_header_exact_def) (simp add: week_names_cn_def)

text \<open>
  The labels are not drawn at \<open>x_start + i * cell_width\<close>: the trace differs from the one
  with those x-coordinates (the first label is at 18, not at 10).
\<close>

theorem draw_week_header_x_counterexample:
  "draw_week_header [] \<noteq>
     map (\<lambda>i. EPD_DrawUTF8 (10 + int i * 28) 25 0 (week_names_cn ! i)
            EPD_ASCII_7X12 EPD_FontUTF8_16x16 BLACK WHITE) [0..<7]"
  by (simp add: draw_week_header_exact week_header_exact_def upt_0_7)

subsection \<open>No state between calls\<close>

text \<open>
  Claim C8. The grid, header and title renderers append to the canvas trace a command
  sequence that depends on their arguments only, not on the trace so far; so two calls
  with identical inputs emit two identical sequences.
\<close>

theorem renderers_stateless:
  "draw_calendar_grid cv = cv @ draw_calendar_grid []
   \<and> draw_week_header cv = cv @ draw_week_header []
   \<and> draw_calendar_title year month cv =
       Inr (cv @ [EPD_DrawUTF8 50 2 1 (title_text year month) EPD_ASCII_11X16
                    EPD_FontUTF8_16x16 BLACK WHITE])
   \<and> draw_calendar_grid (draw_calendar_grid cv) =
       cv @ draw_calendar_grid [] @ draw_calendar_grid []
   \<and> draw_week_header (draw_week_header cv) =
       cv @ draw_week_header [] @ draw_week_header []"
  by (simp add: draw_calendar_grid_exact draw_week_header_exact draw_calendar_title_cmd)

subsection \<open>Month lengths\<close>

lemma upt_1_13: "[1..<13] = [1, 2, 3, 4, 5, 6, 7, 8, 9, 10, 11, 12]"
  by (simp add: upt_rec)

lemma days_in_month_rows:
  "map unat (days_in_month ! 0) = map (gregorian_days False) [1..<13]"
  "map unat (days_in_month ! 1) = map (gregorian_days True) [1..<13]"
  by (simp_all only: upt_1_13) (simp_all add: days_in_month_def gregorian_days_def)

lemma days_in_month_row_length:
  "length (days_in_month ! 0) = 12" "length (days_in_month ! 1) = 12"
  by (simp_all add: days_in_month_def)

lemma table_rows:
  assumes "1 \<le> m" "m \<le> 12"
  shows "unat (days_in_month ! 0 ! (m - 1)) = gregorian_days False m
   \<and> unat (days_in_month ! 1 ! (m - 1)) = gregorian_days True m"
proof -
  have i: "m - 1 < 12" "1 + (m - 1) = m" using assms by simp_all
  have "unat (days_in_month ! 0 ! (m - 1)) = map unat (days_in_month ! 0) ! (m - 1)"
    using i by (simp only: nth_map days_in_month_row_length)
  also have "\<dots> = gregorian_days False m"
    using i by (simp only: days_in_month_rows) (simp del: upt_Suc)
  finally have a: "unat (days_in_month ! 0 ! (m - 1)) = gregorian_days False m" .
  have "unat (days_in_month ! 1 ! (m - 1)) = map unat (days_in_month ! 1) ! (m - 1)"
    using i by (simp only: nth_map days_in_month_row_length)
  also have "\<dots> = gregorian_days True m"
    using i by (simp only: days_in_month_rows) (simp del: upt_Suc)
  finally show ?thesis using a by simp
qed

lemma gregorian_days_le: "gregorian_days leap m \<le> 31"
  by (simp add: gregorian_days_def)

lemma gregorian_days_mono: "gregorian_days False m \<le> gregorian_days True m"
  by (simp add: gregorian_days_def)

lemma gregorian_days_same: "m \<noteq> 2 \<Longrightarrow> gregorian_days True m = gregorian_days False m"
  by (simp add: gregorian_days_def)

lemma u8_lt: "unat (w :: u8) < 256"
proof -
  have "unat w < 2 ^ LENGTH(8)" by (rule unsigned_less)
  then show ?thesis by simp
qed

lemma month_index_unat: "month_index month = int (unat month) - 1"
  by (simp add: month_index_def)

lemma month_index_nat: "nat (month_index month) = unat month - 1"
  unfolding month_index_unat by arith

lemma month_index_range:
  "(0 \<le> month_index month \<and> month_index month < 12) = (1 \<le> month \<and> month \<le> 12)"
  unfolding month_index_unat word_le_nat_alt by (simp del: of_nat_unat) arith

lemma month_index_high:
  "13 \<le> month \<Longrightarrow> 12 \<le> month_index month \<and> month_index month \<le> 254"
  using u8_lt [of month]
  unfolding month_index_unat word_le_nat_alt by (simp del: of_nat_unat)

lemma leap_flag: "unat (leap :: u8) < 2 \<Longrightarrow> unat leap = 0 \<or> unat leap = 1"
  by arith

lemma get_days_in_month_ok:
  assumes "unat (is_leap ext year) < 2" "1 \<le> month" "month \<le> 12"
  shows "get_days_in_month ext year month =
           Inr (days_in_month ! unat (is_leap ext year) ! (unat month - 1))"
  using assms month_index_range [of month]
  by (simp add: get_days_in_month_def days_in_month_at_def month_index_nat)

lemma get_days_in_month_gregorian:
  assumes "unat (is_leap ext year) < 2" "1 \<le> month" "month \<le> 12"
  shows "\<exists>n. get_days_in_month ext year month = Inr n
           \<and> unat n = gregorian_days (unat (is_leap ext year) = 1) (unat month)"
proof -
  have m: "1 \<le> unat month" "unat month \<le> 12" using assms by (simp_all add: word_le_nat_alt)
  show ?thesis
    using leap_flag [OF assms(1)] table_rows [OF m]
    by (auto simp: get_days_in_month_ok [OF assms])
qed

lemma get_days_in_month_Inr:
  assumes "get_days_in_month ext year month = Inr n"
  shows "unat (is_leap ext year) < 2 \<and> 1 \<le> month \<and> month \<le> 12"
  using assms month_index_range [of month]
  by (simp add: get_days_in_month_def days_in_month_at_def Let_def split: if_splits)

lemma get_days_in_month_le:
  assumes "get_days_in_month ext year month = Inr n"
  shows "unat n \<le> 31"
proof -
  note r = get_days_in_month_Inr [OF assms]
  from r obtain n' where "get_days_in_month ext year month = Inr n'"
    and "unat n' = gregorian_days (unat (is_leap ext year) = 1) (unat month)"
    using get_days_in_month_gregorian by blast
  then show ?thesis using assms gregorian_days_le by simp
qed

text \<open>
  Claim C3. For every month \<open>m\<close> in 1..12 and both rows, the table entry
  \<open>days_in_month[leap][m - 1]\<close> is the canonical Gregorian day count; the leap-row entry
  is at least the non-leap entry, the rows are equal except for February, and February
  is 28 against 29. Hence \<open>get_days_in_month\<close> returns the canonical count of the month
  whenever the external \<open>is_leap\<close> returns 1 for the Gregorian leap years and 0 otherwise.
\<close>

theorem days_in_month_canonical:
  "(1 \<le> m \<and> m \<le> 12 \<longrightarrow>
      unat (days_in_month ! 0 ! (m - 1)) = gregorian_days False m
    \<and> unat (days_in_month ! 1 ! (m - 1)) = gregorian_days True m
    \<and> days_in_month ! 0 ! (m - 1) \<le> days_in_month ! 1 ! (m - 1)
    \<and> (m \<noteq> 2 \<longrightarrow> days_in_month ! 1 ! (m - 1) = days_in_month ! 0 ! (m - 1)))
   \<and> days_in_month ! 0 ! 1 = 28 \<and> days_in_month ! 1 ! 1 = 29
   \<and> (1 \<le> month \<and> month \<le> 12
        \<and> is_leap ext year = (if gregorian_leap (unat year) then 1 else 0) \<longrightarrow>
      (\<exists>n. get_days_in_month ext year month = Inr n
         \<and> unat n = gregorian_days (gregorian_leap (unat year)) (unat month)))"
proof (intro conjI impI)
  assume m: "1 \<le> m \<and> m \<le> 12"
  then have r: "unat (days_in_month ! 0 ! (m - 1)) = gregorian_days False m"
    "unat (days_in_month ! 1 ! (m - 1)) = gregorian_days True m"
    using table_rows [of m] by simp_all
  show "unat (days_in_month ! 0 ! (m - 1)) = gregorian_days False m" by (rule r)
  show "unat (days_in_month ! 1 ! (m - 1)) = gregorian_days True m" by (rule r)
  show "days_in_month ! 0 ! (m - 1) \<le> days_in_month ! 1 ! (m - 1)"
    unfolding word_le_nat_alt r by (rule gregorian_days_mono)
  show "days_in_month ! 1 ! (m - 1) = days_in_month ! 0 ! (m - 1)" if "m \<noteq> 2"
    unfolding word_unat_eq_iff r using that by (rule gregorian_days_same)
next
  show "days_in_month ! 0 ! 1 = 28" by (simp add: days_in_month_def)
  show "days_in_month ! 1 ! 1 = 29" by (simp add: days_in_month_def)
next
  assume h: "1 \<le> month \<and> month \<le> 12
        \<and> is_leap ext year = (if gregorian_leap (unat year) then 1 else 0)"
  then have l: "unat (is_leap ext year) < 2"
    and g: "(unat (is_leap ext year) = 1) = gregorian_leap (unat year)"
    by simp_all
  show "\<exists>n. get_days_in_month ext year month = Inr n
         \<and> unat n = gregorian_days (gregorian_leap (unat year)) (unat month)"
    using get_days_in_month_gregorian [OF l, of month] h unfolding g by blast
qed

text \<open>March in the table, and February of the leap year 2024 through the function.\<close>

theorem days_in_month_canonical_witness:
  "1 \<le> (3 :: nat) \<and> (3 :: nat) \<le> 12
   \<and> unat (days_in_month ! 0 ! (3 - 1)) = gregorian_days False 3
   \<and> unat (days_in_month ! 1 ! (3 - 1)) = gregorian_days True 3
   \<and> days_in_month ! 0 ! (3 - 1) \<le> days_in_month ! 1 ! (3 - 1)
   \<and> (3 :: nat) \<noteq> 2 \<and> days_in_month ! 1 ! (3 - 1) = days_in_month ! 0 ! (3 - 1)
   \<and> (1 :: u8) \<le> 2 \<and> (2 :: u8) \<le> 12
   \<and> is_leap (sample_ext sample_tm) 2024 = (if gregorian_leap (unat (2024 :: u16)) then 1 else 0)
   \<and> get_days_in_month (sample_ext sample_tm) 2024 2 = Inr 29
   \<and> gregorian_days (gregorian_leap (unat (2024 :: u16))) (unat (2 :: u8)) = 29"
  using days_in_month_canonical [where m = 3 and month = 2 and ext = "sample_ext sample_tm"
      and year = 2024]
  by (auto simp: sample_ext_def gregorian_leap_def gregorian_days_def word_unat_eq_iff)

text \<open>
  Claim C4, as amended. Provided \<open>is_leap\<close> returns 0 or 1, the read
  \<open>days_in_month[leap][month - 1]\<close> is in bounds for every month in 1..12. For
  \<open>month = 0\<close> the index is \<open>-1\<close> (the subtraction is done in \<open>int\<close> after the integer
  promotion, so it does not wrap to 255), and for \<open>month \<ge> 13\<close> it is in 12..254; in both
  cases the read is outside the 12-entry row.
\<close>

theorem get_days_in_month_bounds:
  "(unat (is_leap ext year) < 2 \<and> 1 \<le> month \<and> month \<le> 12 \<longrightarrow>
      0 \<le> month_index month \<and> month_index month < 12
      \<and> (\<exists>n. get_days_in_month ext year month = Inr n))
   \<and> (month = 0 \<longrightarrow>
        month_index month = - 1 \<and> get_days_in_month ext year month = Inl OutOfBounds)
   \<and> (13 \<le> month \<longrightarrow>
        12 \<le> month_index month \<and> month_index month \<le> 254
        \<and> get_days_in_month ext year month = Inl OutOfBounds)"
proof (intro conjI impI)
  assume h: "unat (is_leap ext year) < 2 \<and> 1 \<le> month \<and> month \<le> 12"
  then show "0 \<le> month_index month" "month_index month < 12"
    using month_index_range [of month] by simp_all
  show "\<exists>n. get_days_in_month ext year month = Inr n"
    using h by (simp add: get_days_in_month_ok)
next
  assume "month = 0"
  then show "month_index month = - 1" "get_days_in_month ext year month = Inl OutOfBounds"
    by (simp_all add: month_index_def get_days_in_month_def days_in_month_at_def)
next
  assume h: "13 \<le> month"
  then have i: "12 \<le> month_index month \<and> month_index month \<le> 254"
    by (rule month_index_high)
  then show "12 \<le> month_index month" "month_index month \<le> 254"
    "get_days_in_month ext year month = Inl OutOfBounds"
    by (simp_all add: get_days_in_month_def days_in_month_at_def)
qed

text \<open>February, month 0 and month 13 of the year 2023.\<close>

theorem get_days_in_month_bounds_witness:
  "unat (is_leap (sample_ext sample_tm) 2023) < 2 \<and> (1 :: u8) \<le> 2 \<and> (2 :: u8) \<le> 12
   \<and> month_index 2 = 1
   \<and> get_days_in_month (sample_ext sample_tm) 2023 2 = Inr 28
   \<and> month_index 0 = - 1
   \<and> get_days_in_month (sample_ext sample_tm) 2023 0 = Inl OutOfBounds
   \<and> (13 :: u8) \<le> 13 \<and> month_index 13 = 12
   \<and> get_days_in_month (sample_ext sample_tm) 2023 13 = Inl OutOfBounds"
  using get_days_in_month_bounds [where ext = "sample_ext sample_tm" and year = 2023
      and month = 2]
    get_days_in_month_bounds [where ext = "sample_ext sample_tm" and year = 2023
      and month = 0]
    get_days_in_month_bounds [where ext = "sample_ext sample_tm" and year = 2023
      and month = 13]
  by (simp add: sample_ext_def gregorian_leap_def month_index_def get_days_in_month_def
      days_in_month_at_def days_in_month_def)

text \<open>
  The index for \<open>month = 0\<close> is not 255: the read is \<open>days_in_month[0][-1]\<close>.
\<close>

theorem month_index_zero_counterexample:
  "month_index 0 \<noteq> 255
   \<and> get_days_in_month (sample_ext sample_tm) 2023 0 = days_in_month_at 0 (- 1)"
  by (simp add: month_index_def get_days_in_month_def sample_ext_def gregorian_leap_def)

subsection \<open>The day buffer\<close>

lemma unat_of_nat_u8: "k < 256 \<Longrightarrow> unat (of_nat k :: u8) = k"
  by (simp add: unat_of_nat)

lemma uint_of_nat_u8: "k < 256 \<Longrightarrow> uint (of_nat k :: u8) = int k"
  by (simp add: uint_nat unat_of_nat del: of_nat_unat)

lemma of_nat_eq_u8: "k < 256 \<Longrightarrow> (of_nat k = (w :: u8)) = (k = unat w)"
  using unat_of_nat_u8 [of k] by auto

lemma draw_calendar_dates_loop:
  "draw_calendar_dates ext year month current_day cv =
     (case get_days_in_month ext year month of
        Inl e \<Rightarrow> Inl e
      | Inr n \<Rightarrow> dates_loop 10 40 28 12 n current_day 1 0
                   (get_first_day_of_month ext year month) cv)"
  by (simp add: draw_calendar_dates_def Let_def)

lemma get_days_in_month_error:
  "get_days_in_month ext year month = Inl e \<Longrightarrow> e = OutOfBounds"
  by (simp add: get_days_in_month_def days_in_month_at_def Let_def split: if_splits)

lemma dec_fits_day_buf: "d < 100 \<Longrightarrow> sprintf_into 3 (dec d) = Inr (dec d)"
  using dec_length_le [of d 2] by (simp add: sprintf_into_def)

lemma day_texts_fit:
  "n \<le> 31 \<Longrightarrow> list_all (\<lambda>s. sprintf_into 3 s = Inr s) (map dec [1..<n + 1])"
  by (simp add: list_all_iff dec_fits_day_buf del: upt_Suc)

lemma sample_first_day: "get_first_day_of_month (sample_ext sample_tm) 2024 2 = 4"
  by (simp add: get_first_day_of_month_def sample_ext_def sakamoto_def)

lemma sample_days: "get_days_in_month (sample_ext sample_tm) 2024 2 = Inr 29"
  by (simp add: get_days_in_month_def sample_ext_def gregorian_leap_def month_index_def
      days_in_month_at_def days_in_month_def)

text \<open>
  Claim C10. Printing the day number into \<open>char day_buf[3]\<close> never overflows: the
  month-length table bounds the day count by 31, the day numbers drawn are the decimal
  renderings of \<open>1..count\<close>, and each of them with its terminating NUL fits into 3 bytes.
  \<open>draw_calendar_dates\<close> therefore never ends in the buffer overflow, whatever its
  arguments.
\<close>

theorem day_buf_never_overflows:
  "draw_calendar_dates ext year month current_day cv \<noteq> Inl BufferOverflow
   \<and> (get_days_in_month ext year month = Inr n \<longrightarrow>
        unat n \<le> 31
        \<and> (\<exists>ds. draw_calendar_dates ext year month current_day cv = Inr (cv @ ds)
              \<and> concat (map cmd_texts ds) = map dec [1..<unat n + 1]
              \<and> list_all (\<lambda>s. sprintf_into 3 s = Inr s) (concat (map cmd_texts ds))))"
proof -
  have ok: "unat n \<le> 31
        \<and> (\<exists>ds. draw_calendar_dates ext year month current_day cv = Inr (cv @ ds)
              \<and> concat (map cmd_texts ds) = map dec [1..<unat n + 1]
              \<and> list_all (\<lambda>s. sprintf_into 3 s = Inr s) (concat (map cmd_texts ds)))"
    if g: "get_days_in_month ext year month = Inr n" for n
  proof -
    have n: "unat n \<le> 31" using g by (rule get_days_in_month_le)
    then have "unat n < 100" by simp
    from dates_loop_frame [OF this, of 10 40 28 12 current_day 1 0
        "get_first_day_of_month ext year month"]
    obtain ds where
      ds: "dates_loop 10 40 28 12 n current_day 1 0
             (get_first_day_of_month ext year month) cv = Inr (cv @ ds)"
      and tx: "concat (map cmd_texts ds) = map dec [1..<unat n + 1]"
      by auto
    have "draw_calendar_dates ext year month current_day cv = Inr (cv @ ds)"
      by (simp add: draw_calendar_dates_loop g ds)
    then show ?thesis using n tx day_texts_fit [OF n] by simp
  qed
  have "draw_calendar_dates ext year month current_day cv \<noteq> Inl BufferOverflow"
  proof (cases "get_days_in_month ext year month")
    case (Inl e)
    then show ?thesis
      using get_days_in_month_error [OF Inl] by (simp add: draw_calendar_dates_loop)
  next
    case (Inr m)
    then show ?thesis using ok [OF Inr] by auto
  qed
  then show ?thesis using ok by blast
qed

text \<open>February 2024 with day 15 current: 29 day numbers.\<close>

theorem day_buf_never_overflows_witness:
  "draw_calendar_dates (sample_ext sample_tm) 2024 2 15 [] \<noteq> Inl BufferOverflow
   \<and> get_days_in_month (sample_ext sample_tm) 2024 2 = Inr 29
   \<and> unat (29 :: u8) \<le> 31
   \<and> (\<exists>ds. draw_calendar_dates (sample_ext sample_tm) 2024 2 15 [] = Inr ds
         \<and> concat (map cmd_texts ds) = map dec [1..<30]
         \<and> list_all (\<lambda>s. sprintf_into 3 s = Inr s) (concat (map cmd_texts ds)))"
  using day_buf_never_overflows [where ext = "sample_ext sample_tm" and year = 2024
      and month = 2 and current_day = 15 and cv = "[]" and n = 29]
  by (simp add: sample_days)

subsection \<open>Grid cells of the days\<close>

lemma cell_bounds:
  "first \<le> 6 \<Longrightarrow> 1 \<le> d \<Longrightarrow> d \<le> 31 \<Longrightarrow>
   (first + d - 1) div 7 \<le> 5 \<and> (first + d - 1) mod 7 \<le> (6 :: nat)"
  by (simp add: div_le_mono [of "first + d - 1" 36 7, simplified] less_Suc_eq_le [symmetric])

lemma date_cell_exact_eq:
  assumes "d < 256" "row \<le> 5" "col \<le> 6"
  shows "date_cell 10 40 28 12 cur (of_nat d) (of_nat row) (of_nat col) (dec d) =
           date_cell_exact cur d row col"
proof -
  have x: "uint (10 + of_nat col * 28 + 8 :: u8) = 10 + int col * 28 + 8"
  proof -
    have "(10 + of_nat col * 28 + 8 :: u8) = of_nat (10 + col * 28 + 8)" by simp
    moreover have "10 + col * 28 + 8 < 256" using assms by simp
    ultimately show ?thesis by (simp only: uint_of_nat_u8)
  qed
  have y: "uint (40 + of_nat row * 12 + 2 :: u8) = 40 + int row * 12 + 2"
  proof -
    have "(40 + of_nat row * 12 + 2 :: u8) = of_nat (40 + row * 12 + 2)" by simp
    moreover have "40 + row * 12 + 2 < 256" using assms by simp
    ultimately show ?thesis by (simp only: uint_of_nat_u8)
  qed
  have c: "uint (of_nat col :: u8) = int col" using assms by (simp add: uint_of_nat_u8)
  have r: "uint (of_nat row :: u8) = int row" using assms by (simp add: uint_of_nat_u8)
  have e: "(of_nat d = cur) = (d = unat cur)" using assms(1) by (rule of_nat_eq_u8)
  show ?thesis
    unfolding date_cell_def date_cell_exact_def Let_def x y c r e by simp
qed

lemma dates_loop_cells:
  assumes "unat first \<le> 6" "unat n \<le> 31"
  shows "dates_loop xs ys cw ch n cur 1 0 first cv =
     Inr (cv @ concat (map (\<lambda>d. date_cell xs ys cw ch cur (of_nat d)
                              (of_nat ((unat first + d - 1) div 7))
                              (of_nat ((unat first + d - 1) mod 7)) (dec d))
                        [1..<unat n + 1]))"
proof -
  have "dates_loop xs ys cw ch n cur 1 0 first cv =
     Inr (cv @ concat (map (\<lambda>j. date_cell xs ys cw ch cur (of_nat (unat (1 :: u8) + j))
                              (of_nat ((7 * unat (0 :: u8) + unat first + j) div 7))
                              (of_nat ((7 * unat (0 :: u8) + unat first + j) mod 7))
                              (dec (unat (1 :: u8) + j)))
                        [0..<unat n + 1 - unat (1 :: u8)]))"
    using assms by (intro dates_loop_closed) simp_all
  also have "\<dots> =
     Inr (cv @ concat (map ((\<lambda>d. date_cell xs ys cw ch cur (of_nat d)
                              (of_nat ((unat first + d - 1) div 7))
                              (of_nat ((unat first + d - 1) mod 7)) (dec d)) \<circ> Suc)
                        [0..<unat n]))"
    by (simp add: o_def)
  also have "\<dots> =
     Inr (cv @ concat (map (\<lambda>d. date_cell xs ys cw ch cur (of_nat d)
                              (of_nat ((unat first + d - 1) div 7))
                              (of_nat ((unat first + d - 1) mod 7)) (dec d))
                        [1..<unat n + 1]))"
    unfolding map_map [symmetric] map_Suc_upt by simp
  finally show ?thesis .
qed

lemma dates_loop_exact:
  assumes "unat first \<le> 6" "unat n \<le> 31"
  shows "dates_loop 10 40 28 12 n cur 1 0 first cv =
           Inr (cv @ dates_exact (unat first) (unat n) cur)"
proof -
  have "map (\<lambda>d. date_cell 10 40 28 12 cur (of_nat d)
                              (of_nat ((unat first + d - 1) div 7))
                              (of_nat ((unat first + d - 1) mod 7)) (dec d))
                        [1..<unat n + 1] =
        map (\<lambda>d. date_cell_exact cur d ((unat first + d - 1) div 7)
                    ((unat first + d - 1) mod 7)) [1..<unat n + 1]"
  proof (rule map_cong [OF refl])
    fix d assume "d \<in> set [1..<unat n + 1]"
    then have d: "1 \<le> d" "d \<le> 31" using assms by auto
    from cell_bounds [OF assms(1) d] d
    show "date_cell 10 40 28 12 cur (of_nat d) (of_nat ((unat first + d - 1) div 7))
            (of_nat ((unat first + d - 1) mod 7)) (dec d) =
          date_cell_exact cur d ((unat first + d - 1) div 7) ((unat first + d - 1) mod 7)"
      by (intro date_cell_exact_eq) simp_all
  qed
  then show ?thesis
    unfolding dates_loop_cells [OF assms] dates_exact_def by (simp only:)
qed

lemma sample_leap: "is_leap (sample_ext sample_tm) 2024 = 1"
  by (simp add: sample_ext_def gregorian_leap_def)

lemma dates_exact_explicit:
  "dates_exact first n cur =
     concat (map (\<lambda>d.
         if d = unat cur
         then [Paint_DrawRectangle
                 (10 + int ((first + d - 1) mod 7) * 28 + 1)
                 (40 + int ((first + d - 1) div 7) * 12 + 1)
                 (10 + (int ((first + d - 1) mod 7) + 1) * 28 - 1)
                 (40 + (int ((first + d - 1) div 7) + 1) * 12 - 1)
                 BLACK DOT_PIXEL_1X1 DRAW_FILL_FULL,
               EPD_DrawUTF8 (10 + int ((first + d - 1) mod 7) * 28 + 8)
                 (40 + int ((first + d - 1) div 7) * 12 + 2) 0 (dec d)
                 EPD_ASCII_7X12 FONT_0 WHITE BLACK]
         else [EPD_DrawUTF8 (10 + int ((first + d - 1) mod 7) * 28 + 8)
                 (40 + int ((first + d - 1) div 7) * 12 + 2) 0 (dec d)
                 EPD_ASCII_7X12 FONT_0 BLACK WHITE])
       [1..<n + 1])"
  unfolding dates_exact_def date_cell_exact_def by (rule refl)

lemma concat_map_member: "d \<in> set xs \<Longrightarrow> c \<in> set (g d) \<Longrightarrow> c \<in> set (concat (map g xs))"
  by auto

text \<open>
  Claim C1. For every year, every month in 1..12 and every day \<open>d\<close> with
  \<open>1 \<le> d \<le> days_in_month\<close>, \<open>draw_calendar_dates\<close> draws day \<open>d\<close> in the grid cell
  \<open>row = (first + d - 1) div 7\<close>, \<open>col = (first + d - 1) mod 7\<close>, where \<open>first\<close> is the
  weekday of the first of the month: the trace consists, for the days \<open>1..count\<close> in
  order, of the number of day \<open>d\<close> at the text anchor
  \<open>(10 + col * 28 + 8, 40 + row * 12 + 2)\<close> of that cell, preceded for the current day by
  the filled rectangle from \<open>(10 + col * 28 + 1, 40 + row * 12 + 1)\<close> to
  \<open>(10 + (col + 1) * 28 - 1, 40 + (row + 1) * 12 - 1)\<close>. This is the loop body
  \<open>date_cell\<close> run with the cursor at the cells of the closed form. With \<open>first\<close> in 0..6
  (and the leap flag 0 or 1) the count is at most 31, the row is in 0..5 and the column
  in 0..6.
\<close>

theorem draw_calendar_dates_cells:
  assumes "unat (is_leap ext year) < 2" and "1 \<le> month" and "month \<le> 12"
    and "first = unat (get_first_day_of_month ext year month)" and "first \<le> 6"
  shows "\<exists>n. get_days_in_month ext year month = Inr n \<and> unat n \<le> 31
     \<and> draw_calendar_dates ext year month current_day cv =
         Inr (cv @ concat (map (\<lambda>d.
           if d = unat current_day
           then [Paint_DrawRectangle
                   (10 + int ((first + d - 1) mod 7) * 28 + 1)
                   (40 + int ((first + d - 1) div 7) * 12 + 1)
                   (10 + (int ((first + d - 1) mod 7) + 1) * 28 - 1)
                   (40 + (int ((first + d - 1) div 7) + 1) * 12 - 1)
                   BLACK DOT_PIXEL_1X1 DRAW_FILL_FULL,
                 EPD_DrawUTF8 (10 + int ((first + d - 1) mod 7) * 28 + 8)
                   (40 + int ((first + d - 1) div 7) * 12 + 2) 0 (dec d)
                   EPD_ASCII_7X12 FONT_0 WHITE BLACK]
           else [EPD_DrawUTF8 (10 + int ((first + d - 1) mod 7) * 28 + 8)
                   (40 + int ((first + d - 1) div 7) * 12 + 2) 0 (dec d)
                   EPD_ASCII_7X12 FONT_0 BLACK WHITE])
         [1..<unat n + 1]))
     \<and> draw_calendar_dates ext year month current_day cv =
         Inr (cv @ concat (map (\<lambda>d. date_cell 10 40 28 12 current_day (of_nat d)
               (of_nat ((first + d - 1) div 7)) (of_nat ((first + d - 1) mod 7)) (dec d))
             [1..<unat n + 1]))
     \<and> (\<forall>d. 1 \<le> d \<and> d \<le> unat n \<longrightarrow>
           (first + d - 1) div 7 \<le> 5 \<and> (first + d - 1) mod 7 \<le> 6)"
proof -
  from get_days_in_month_gregorian [OF assms(1-3)]
  obtain n where g: "get_days_in_month ext year month = Inr n" by blast
  have n: "unat n \<le> 31" using g by (rule get_days_in_month_le)
  have f: "unat (get_first_day_of_month ext year month) \<le> 6"
    using assms(4,5) by simp
  have l: "draw_calendar_dates ext year month current_day cv =
      dates_loop 10 40 28 12 n current_day 1 0 (get_first_day_of_month ext year month) cv"
    by (simp add: draw_calendar_dates_loop g)
  have a: "draw_calendar_dates ext year month current_day cv =
      Inr (cv @ dates_exact first (unat n) current_day)"
    unfolding l assms(4) by (rule dates_loop_exact [OF f n])
  have b: "draw_calendar_dates ext year month current_day cv =
         Inr (cv @ concat (map (\<lambda>d. date_cell 10 40 28 12 current_day (of_nat d)
               (of_nat ((first + d - 1) div 7)) (of_nat ((first + d - 1) mod 7)) (dec d))
             [1..<unat n + 1]))"
    unfolding l assms(4) by (rule dates_loop_cells [OF f n])
  have c: "(first + d - 1) div 7 \<le> 5 \<and> (first + d - 1) mod 7 \<le> 6"
    if "1 \<le> d \<and> d \<le> unat n" for d
    using cell_bounds [OF assms(5), of d] that n by simp
  show ?thesis
    using g n a [unfolded dates_exact_explicit] b c by blast
qed

text \<open>
  February 2024 begins on a Thursday (4): day 1 is drawn at (130, 42), the current day 15
  in row 2, column 4 with its rectangle from (123, 65) to (149, 75) and its number at
  (130, 66), and day 29 in row 4, column 4 at (130, 90).
\<close>

theorem draw_calendar_dates_cells_witness:
  "unat (is_leap (sample_ext sample_tm) 2024) < 2 \<and> (1 :: u8) \<le> 2 \<and> (2 :: u8) \<le> 12
   \<and> (4 :: nat) = unat (get_first_day_of_month (sample_ext sample_tm) 2024 2)
   \<and> (4 :: nat) \<le> 6
   \<and> get_days_in_month (sample_ext sample_tm) 2024 2 = Inr 29
   \<and> (\<exists>ds. draw_calendar_dates (sample_ext sample_tm) 2024 2 15 [] = Inr ds
         \<and> EPD_DrawUTF8 130 42 0 ''1'' EPD_ASCII_7X12 FONT_0 BLACK WHITE \<in> set ds
         \<and> Paint_DrawRectangle 123 65 149 75 BLACK DOT_PIXEL_1X1 DRAW_FILL_FULL \<in> set ds
         \<and> EPD_DrawUTF8 130 66 0 ''15'' EPD_ASCII_7X12 FONT_0 WHITE BLACK \<in> set ds
         \<and> EPD_DrawUTF8 130 90 0 ''29'' EPD_ASCII_7X12 FONT_0 BLACK WHITE \<in> set ds
         \<and> ds = concat (map (\<lambda>d. date_cell 10 40 28 12 15 (of_nat d)
                           (of_nat ((4 + d - 1) div 7)) (of_nat ((4 + d - 1) mod 7)) (dec d))
                      [1..<30]))
   \<and> (4 + 29 - 1) div 7 \<le> (5 :: nat) \<and> (4 + 29 - 1) mod 7 \<le> (6 :: nat)"
proof -
  have h: "unat (is_leap (sample_ext sample_tm) 2024) < 2" "(1 :: u8) \<le> 2" "(2 :: u8) \<le> 12"
    "(4 :: nat) = unat (get_first_day_of_month (sample_ext sample_tm) 2024 2)"
    "(4 :: nat) \<le> 6"
    by (simp_all add: sample_leap sample_first_day)
  let ?g = "\<lambda>d. if d = unat (15 :: u8)
           then [Paint_DrawRectangle
                   (10 + int ((4 + d - 1) mod 7) * 28 + 1)
                   (40 + int ((4 + d - 1) div 7) * 12 + 1)
                   (10 + (int ((4 + d - 1) mod 7) + 1) * 28 - 1)
                   (40 + (int ((4 + d - 1) div 7) + 1) * 12 - 1)
                   BLACK DOT_PIXEL_1X1 DRAW_FILL_FULL,
                 EPD_DrawUTF8 (10 + int ((4 + d - 1) mod 7) * 28 + 8)
                   (40 + int ((4 + d - 1) div 7) * 12 + 2) 0 (dec d)
                   EPD_ASCII_7X12 FONT_0 WHITE BLACK]
           else [EPD_DrawUTF8 (10 + int ((4 + d - 1) mod 7) * 28 + 8)
                   (40 + int ((4 + d - 1) div 7) * 12 + 2) 0 (dec d)
                   EPD_ASCII_7X12 FONT_0 BLACK WHITE]"
  from draw_calendar_dates_cells [OF h, of 15 "[]"]
  obtain n where g: "get_days_in_month (sample_ext sample_tm) 2024 2 = Inr n"
    and a': "draw_calendar_dates (sample_ext sample_tm) 2024 2 15 [] =
         Inr ([] @ concat (map ?g [1..<unat n + 1]))"
    and b': "draw_calendar_dates (sample_ext sample_tm) 2024 2 15 [] =
         Inr ([] @ concat (map (\<lambda>d. date_cell 10 40 28 12 15 (of_nat d)
                           (of_nat ((4 + d - 1) div 7)) (of_nat ((4 + d - 1) mod 7)) (dec d))
                      [1..<unat n + 1]))"
    and c': "\<forall>d. 1 \<le> d \<and> d \<le> unat n \<longrightarrow>
           (4 + d - 1) div 7 \<le> 5 \<and> (4 + d - 1) mod 7 \<le> 6"
    by blast
  have n: "unat n + 1 = 30" using g by (simp add: sample_days)
  have a: "draw_calendar_dates (sample_ext sample_tm) 2024 2 15 [] =
         Inr (concat (map ?g [1..<30]))"
    using a' unfolding n append_Nil .
  have b: "draw_calendar_dates (sample_ext sample_tm) 2024 2 15 [] =
         Inr (concat (map (\<lambda>d. date_cell 10 40 28 12 15 (of_nat d)
                           (of_nat ((4 + d - 1) div 7)) (of_nat ((4 + d - 1) mod 7)) (dec d))
                      [1..<30]))"
    using b' unfolding n append_Nil .
  have c: "(4 + 29 - 1) div 7 \<le> (5 :: nat) \<and> (4 + 29 - 1) mod 7 \<le> (6 :: nat)"
    using c' [rule_format, of 29] n by simp
  have m1: "EPD_DrawUTF8 130 42 0 ''1'' EPD_ASCII_7X12 FONT_0 BLACK WHITE
              \<in> set (concat (map ?g [1..<30]))"
    by (rule concat_map_member [of 1])
      (simp_all add: dec.simps digit_char_def del: upt_Suc)
  have m2: "Paint_DrawRectangle 123 65 149 75 BLACK DOT_PIXEL_1X1 DRAW_FILL_FULL
              \<in> set (concat (map ?g [1..<30]))"
    by (rule concat_map_member [of 15])
      (simp_all add: dec.simps digit_char_def del: upt_Suc)
  have m3: "EPD_DrawUTF8 130 66 0 ''15'' EPD_ASCII_7X12 FONT_0 WHITE BLACK
              \<in> set (concat (map ?g [1..<30]))"
    by (rule concat_map_member [of 15])
      (simp_all add: dec.simps digit_char_def del: upt_Suc)
  have m4: "EPD_DrawUTF8 130 90 0 ''29'' EPD_ASCII_7X12 FONT_0 BLACK WHITE
              \<in> set (concat (map ?g [1..<30]))"
    by (rule concat_map_member [of 29])
      (simp_all add: dec.simps digit_char_def del: upt_Suc)
  have "\<exists>ds. draw_calendar_dates (sample_ext sample_tm) 2024 2 15 [] = Inr ds
         \<and> EPD_DrawUTF8 130 42 0 ''1'' EPD_ASCII_7X12 FONT_0 BLACK WHITE \<in> set ds
         \<and> Paint_DrawRectangle 123 65 149 75 BLACK DOT_PIXEL_1X1 DRAW_FILL_FULL \<in> set ds
         \<and> EPD_DrawUTF8 130 66 0 ''15'' EPD_ASCII_7X12 FONT_0 WHITE BLACK \<in> set ds
         \<and> EPD_DrawUTF8 130 90 0 ''29'' EPD_ASCII_7X12 FONT_0 BLACK WHITE \<in> set ds
         \<and> ds = concat (map (\<lambda>d. date_cell 10 40 28 12 15 (of_nat d)
                           (of_nat ((4 + d - 1) div 7)) (of_nat ((4 + d - 1) mod 7)) (dec d))
                      [1..<30])"
    using a b m1 m2 m3 m4 by (intro exI [of _ "concat (map ?g [1..<30])"]) (simp only: sum.inject simp_thms)
  then show ?thesis
    using h c sample_days by blast
qed

subsection \<open>Coordinates\<close>

lemma date_cell_exact_coords:
  "row \<le> 5 \<Longrightarrow> col \<le> 6 \<Longrightarrow> list_all (coords_within 206) (date_cell_exact cur d row col)"
  by (simp add: date_cell_exact_def coords_within_def)

lemma dates_exact_coords:
  assumes "first \<le> 6" "n \<le> 31"
  shows "list_all (coords_within 206) (dates_exact first n cur)"
proof -
  have "list_all (coords_within 206)
          (date_cell_exact cur d ((first + d - 1) div 7) ((first + d - 1) mod 7))"
    if "d \<in> set [1..<n + 1]" for d
  proof -
    have "1 \<le> d" "d \<le> 31" using that assms by auto
    from cell_bounds [OF assms(1) this] show ?thesis
      by (intro date_cell_exact_coords) simp_all
  qed
  then show ?thesis
    unfolding dates_exact_def list_all_iff set_concat set_map by blast
qed

lemma header_grid_coords: "list_all (coords_within 206) (week_header_exact @ grid_exact)"
  by (simp add: week_header_exact_def grid_exact_def upt_0_7 upt_0_8 coords_within_def)

lemma grid_reaches_206:
  "Paint_DrawLine 10 40 206 40 BLACK DOT_PIXEL_1X1 LINE_STYLE_SOLID \<in> set grid_exact"
  by (simp add: grid_exact_def upt_0_7)

text \<open>
  Claim C9. For every weekday of the first in 0..6 and every day count of at most 31, the
  coordinates that \<open>draw_week_header\<close>, \<open>draw_calendar_grid\<close> and the loop of
  \<open>draw_calendar_dates\<close> compute in \<open>uint8_t\<close> are the values of the same expressions in
  unbounded integers: the traces equal those of \<open>week_header_exact\<close>, \<open>grid_exact\<close> and
  \<open>dates_exact\<close>. Every coordinate is between 0 and 206, and 206
  (\<open>x_start + grid_width\<close>) occurs.
\<close>

theorem coordinates_do_not_wrap:
  "draw_week_header cv = cv @ week_header_exact
   \<and> draw_calendar_grid cv = cv @ grid_exact
   \<and> (first_day \<le> 6 \<and> days_count \<le> 31 \<longrightarrow>
        dates_loop 10 40 28 12 days_count current_day 1 0 first_day cv =
          Inr (cv @ dates_exact (unat first_day) (unat days_count) current_day)
        \<and> list_all (coords_within 206)
            (dates_exact (unat first_day) (unat days_count) current_day))
   \<and> list_all (coords_within 206) (week_header_exact @ grid_exact)
   \<and> Paint_DrawLine 10 40 206 40 BLACK DOT_PIXEL_1X1 LINE_STYLE_SOLID \<in> set grid_exact"
proof (intro conjI impI)
  assume h: "first_day \<le> 6 \<and> days_count \<le> 31"
  then have b: "unat first_day \<le> 6" "unat days_count \<le> 31"
    by (simp_all add: word_le_nat_alt)
  show "dates_loop 10 40 28 12 days_count current_day 1 0 first_day cv =
          Inr (cv @ dates_exact (unat first_day) (unat days_count) current_day)"
    using b by (rule dates_loop_exact)
  show "list_all (coords_within 206)
            (dates_exact (unat first_day) (unat days_count) current_day)"
    using b by (rule dates_exact_coords)
qed (rule draw_week_header_exact draw_calendar_grid_exact header_grid_coords
      grid_reaches_206)+

text \<open>A month of 31 days beginning on the last weekday (6).\<close>

theorem coordinates_do_not_wrap_witness:
  "draw_week_header [] = week_header_exact
   \<and> draw_calendar_grid [] = grid_exact
   \<and> (6 :: u8) \<le> 6 \<and> (31 :: u8) \<le> 31
   \<and> dates_loop 10 40 28 12 31 15 1 0 6 [] = Inr (dates_exact 6 31 15)
   \<and> list_all (coords_within 206) (dates_exact 6 31 15)
   \<and> list_all (coords_within 206) (week_header_exact @ grid_exact)
   \<and> Paint_DrawLine 10 40 206 40 BLACK DOT_PIXEL_1X1 LINE_STYLE_SOLID \<in> set grid_exact"
  using coordinates_do_not_wrap [where cv = "[]" and first_day = 6 and days_count = 31
      and current_day = 15]
  by simp

subsection \<open>The highlight\<close>

lemma rectangles_count:
  "length (filter is_rectangle (concat (map (\<lambda>d. date_cell_exact cur d (r d) (c d)) xs))) =
     length (filter (\<lambda>d. d = unat cur) xs)"
  by (induction xs) (simp_all add: date_cell_exact_def)

lemma inverted_texts:
  "concat (map cmd_texts (filter is_inverted_text
       (concat (map (\<lambda>d. date_cell_exact cur d (r d) (c d)) xs)))) =
     map dec (filter (\<lambda>d. d = unat cur) xs)"
  by (induction xs) (simp_all add: date_cell_exact_def)

lemma plain_texts:
  "concat (map cmd_texts (filter is_plain_text
       (concat (map (\<lambda>d. date_cell_exact cur d (r d) (c d)) xs)))) =
     map dec (filter (\<lambda>d. d \<noteq> unat cur) xs)"
  by (induction xs) (simp_all add: date_cell_exact_def)

lemma highlighted_cmds:
  "filter (\<lambda>x. is_rectangle x \<or> is_inverted_text x)
       (concat (map (\<lambda>d. date_cell_exact cur d (r d) (c d)) xs)) =
     concat (map (\<lambda>d. date_cell_exact cur d (r d) (c d)) (filter (\<lambda>d. d = unat cur) xs))"
  by (induction xs) (simp_all add: date_cell_exact_def)

lemma filter_eq_upt:
  "filter (\<lambda>d. d = k) [1..<n + 1] = (if 1 \<le> k \<and> k \<le> n then [k] else [])"
  by (induction n) auto

text \<open>
  Claim C2. For every year, every month in 1..12 and every weekday of the first in 0..6,
  \<open>draw_calendar_dates\<close> draws the filled rectangle and the inverted (white on black)
  day number for exactly one day, the current one in its own cell, when \<open>current_day\<close> is
  in \<open>1..days_in_month\<close>, and no rectangle and no inverted number when \<open>current_day\<close> is
  0 or exceeds the day count; the numbers of all other days are drawn black on white.
\<close>

theorem highlight_exactly_one:
  assumes "unat (is_leap ext year) < 2" and "1 \<le> month" and "month \<le> 12"
    and "get_first_day_of_month ext year month \<le> 6"
  shows "\<exists>n ds. get_days_in_month ext year month = Inr n
     \<and> draw_calendar_dates ext year month current_day cv = Inr (cv @ ds)
     \<and> length (filter is_rectangle ds) = (if 1 \<le> current_day \<and> current_day \<le> n then 1 else 0)
     \<and> concat (map cmd_texts (filter is_inverted_text ds)) =
         (if 1 \<le> current_day \<and> current_day \<le> n then [dec (unat current_day)] else [])
     \<and> filter (\<lambda>x. is_rectangle x \<or> is_inverted_text x) ds =
         (if 1 \<le> current_day \<and> current_day \<le> n
          then date_cell_exact current_day (unat current_day)
                 ((unat (get_first_day_of_month ext year month) + unat current_day - 1) div 7)
                 ((unat (get_first_day_of_month ext year month) + unat current_day - 1) mod 7)
          else [])
     \<and> concat (map cmd_texts (filter is_plain_text ds)) =
         map dec (filter (\<lambda>d. d \<noteq> unat current_day) [1..<unat n + 1])"
proof -
  from get_days_in_month_gregorian [OF assms(1-3)]
  obtain n where g: "get_days_in_month ext year month = Inr n" by blast
  have n: "unat n \<le> 31" using g by (rule get_days_in_month_le)
  have f: "unat (get_first_day_of_month ext year month) \<le> 6"
    using assms(4) by (simp add: word_le_nat_alt)
  define ds where
    "ds = dates_exact (unat (get_first_day_of_month ext year month)) (unat n) current_day"
  have c: "(1 \<le> current_day \<and> current_day \<le> n) =
            (1 \<le> unat current_day \<and> unat current_day \<le> unat n)"
    by (simp add: word_le_nat_alt)
  have "draw_calendar_dates ext year month current_day cv = Inr (cv @ ds)"
    unfolding draw_calendar_dates_loop g ds_def using dates_loop_exact [OF f n] by simp
  moreover have "length (filter is_rectangle ds) =
      (if 1 \<le> current_day \<and> current_day \<le> n then 1 else 0)"
    unfolding ds_def dates_exact_def rectangles_count filter_eq_upt c by simp
  moreover have "concat (map cmd_texts (filter is_inverted_text ds)) =
         (if 1 \<le> current_day \<and> current_day \<le> n then [dec (unat current_day)] else [])"
    unfolding ds_def dates_exact_def inverted_texts filter_eq_upt c by simp
  moreover have "filter (\<lambda>x. is_rectangle x \<or> is_inverted_text x) ds =
         (if 1 \<le> current_day \<and> current_day \<le> n
          then date_cell_exact current_day (unat current_day)
                 ((unat (get_first_day_of_month ext year month) + unat current_day - 1) div 7)
                 ((unat (get_first_day_of_month ext year month) + unat current_day - 1) mod 7)
          else [])"
    unfolding ds_def dates_exact_def highlighted_cmds filter_eq_upt c by auto
  moreover have "concat (map cmd_texts (filter is_plain_text ds)) =
         map dec (filter (\<lambda>d. d \<noteq> unat current_day) [1..<unat n + 1])"
    unfolding ds_def dates_exact_def plain_texts by (rule refl)
  ultimately show ?thesis using g by blast
qed

text \<open>February 2024 with the current day 15 (row 2, column 4), 30 and 0.\<close>

theorem highlight_exactly_one_witness:
  "unat (is_leap (sample_ext sample_tm) 2024) < 2 \<and> (1 :: u8) \<le> 2 \<and> (2 :: u8) \<le> 12
   \<and> get_first_day_of_month (sample_ext sample_tm) 2024 2 \<le> 6
   \<and> (\<exists>ds. draw_calendar_dates (sample_ext sample_tm) 2024 2 15 [] = Inr ds
         \<and> length (filter is_rectangle ds) = 1
         \<and> concat (map cmd_texts (filter is_inverted_text ds)) = [dec 15]
         \<and> filter (\<lambda>x. is_rectangle x \<or> is_inverted_text x) ds = date_cell_exact 15 15 2 4)
   \<and> (\<exists>ds. draw_calendar_dates (sample_ext sample_tm) 2024 2 30 [] = Inr ds
         \<and> length (filter is_rectangle ds) = 0
         \<and> concat (map cmd_texts (filter is_inverted_text ds)) = [])
   \<and> (\<exists>ds. draw_calendar_dates (sample_ext sample_tm) 2024 2 0 [] = Inr ds
         \<and> length (filter is_rectangle ds) = 0
         \<and> concat (map cmd_texts (filter is_inverted_text ds)) = [])"
  using highlight_exactly_one [where ext = "sample_ext sample_tm" and year = 2024
      and month = 2 and current_day = 15 and cv = "[]"]
    highlight_exactly_one [where ext = "sample_ext sample_tm" and year = 2024
      and month = 2 and current_day = 30 and cv = "[]"]
    highlight_exactly_one [where ext = "sample_ext sample_tm" and year = 2024
      and month = 2 and current_day = 0 and cv = "[]"]
  by (simp add: sample_days sample_first_day sample_leap del: upt_Suc) blast

subsection \<open>Order of the page trace\<close>

lemma fmt_02d_length:
  assumes "0 \<le> i" "i \<le> 99"
  shows "length (fmt_02d i) = 2"
proof -
  have "nat i < 10 ^ 2" using assms by simp
  then have "length (dec (nat i)) \<le> 2" by (rule dec_length_le) simp
  then show ?thesis
    using assms dec_nonempty [of "nat i"] by (auto simp: fmt_02d_def fmt_d_def Let_def)
qed

lemma time_text_fits:
  assumes "0 \<le> tm_hour tm" "tm_hour tm \<le> 23" "0 \<le> tm_min tm" "tm_min tm \<le> 59"
  shows "sprintf_into 20 (time_text tm) = Inr (time_text tm)"
  using assms by (simp add: sprintf_into_def time_text_def fmt_02d_length)

lemma month_of_tm:
  assumes "0 \<le> k" "k \<le> 11"
  shows "1 \<le> (word_of_int (k + 1) :: u8) \<and> (word_of_int (k + 1) :: u8) \<le> 12"
proof -
  have "(word_of_int (k + 1) :: u8) = of_nat (nat (k + 1))"
    using assms by (intro word_of_int_nat) simp
  moreover have "unat (of_nat (nat (k + 1)) :: u8) = nat (k + 1)"
    using assms by (intro unat_of_nat_u8) simp
  ultimately show ?thesis
    using assms by (simp add: word_le_nat_alt) arith
qed

lemma draw_calendar_dates_frame:
  assumes "get_days_in_month ext year month = Inr n"
  shows "\<exists>ds. \<forall>cv. draw_calendar_dates ext year month current_day cv = Inr (cv @ ds)"
proof -
  have "unat n < 100" using get_days_in_month_le [OF assms] by simp
  from dates_loop_frame [OF this, of 10 40 28 12 current_day 1 0
        "get_first_day_of_month ext year month"]
  show ?thesis by (auto simp: draw_calendar_dates_loop assms)
qed

lemma week_header_exact_length: "length week_header_exact = 7"
  by (simp add: week_header_exact_def)

lemma grid_exact_length: "length grid_exact = 15"
  by (simp add: grid_exact_def)

lemma sample_dates:
  "draw_calendar_dates (sample_ext sample_tm) 2024 2 15 cv = Inr (cv @ dates_exact 4 29 15)"
  using dates_loop_exact [of 4 29 15 cv]
  by (simp add: draw_calendar_dates_loop sample_days sample_first_day)

lemma sample_time_text: "time_text sample_tm = ''09:05''"
  by (simp add: time_text_def sample_tm_def fmt_02d_def fmt_d_def dec.simps digit_char_def)

text \<open>
  Claim C5. For every timestamp that the time library decomposes to a month in 1..12
  (\<open>tm_mon\<close> in 0..11), an hour in 0..23 and a minute in 0..59, with a leap flag of 0 or
  1, the trace of \<open>draw_calendar_page\<close> begins with the clear of the whole canvas to
  white, followed by the title, the seven weekday labels, the 15 grid lines, the commands
  of the date renderer and, last, the footer time, in this order and with nothing else in
  between.
\<close>

theorem draw_calendar_page_order:
  assumes "transformTime ext unix_time = tm"
    and "year = word_of_int (tm_year tm + YEAR0 ext)"
    and "month = word_of_int (tm_mon tm + 1)"
    and "current_day = word_of_int (tm_mday tm)"
    and "0 \<le> tm_mon tm" and "tm_mon tm \<le> 11"
    and "0 \<le> tm_hour tm" and "tm_hour tm \<le> 23"
    and "0 \<le> tm_min tm" and "tm_min tm \<le> 59"
    and "unat (is_leap ext year) < 2"
  shows "\<exists>ds. (\<forall>cv'. draw_calendar_dates ext year month current_day cv' = Inr (cv' @ ds))
     \<and> draw_calendar_page ext unix_time cv =
         Inr (cv @ [Paint_Clear WHITE,
                    EPD_DrawUTF8 50 2 1 (title_text year month) EPD_ASCII_11X16
                      EPD_FontUTF8_16x16 BLACK WHITE]
                 @ week_header_exact @ grid_exact @ ds
                 @ [EPD_DrawUTF8 150 115 1 (time_text tm) EPD_ASCII_11X16
                      EPD_FontUTF8_16x16 BLACK WHITE])
     \<and> length week_header_exact = 7 \<and> length grid_exact = 15"
proof -
  have m: "1 \<le> month" "month \<le> 12"
    using month_of_tm [OF assms(5,6)] assms(3) by simp_all
  from get_days_in_month_gregorian [OF assms(11) m]
  obtain n where g: "get_days_in_month ext year month = Inr n" by blast
  from draw_calendar_dates_frame [OF g, of current_day]
  obtain ds where ds: "\<And>cv'. draw_calendar_dates ext year month current_day cv' = Inr (cv' @ ds)"
    by blast
  have "draw_calendar_page ext unix_time cv =
         Inr (cv @ [Paint_Clear WHITE,
                    EPD_DrawUTF8 50 2 1 (title_text year month) EPD_ASCII_11X16
                      EPD_FontUTF8_16x16 BLACK WHITE]
                 @ week_header_exact @ grid_exact @ ds
                 @ [EPD_DrawUTF8 150 115 1 (time_text tm) EPD_ASCII_11X16
                      EPD_FontUTF8_16x16 BLACK WHITE])"
    unfolding draw_calendar_page_def assms(1) Let_def
      assms(2) [symmetric] assms(3) [symmetric] assms(4) [symmetric]
    by (simp add: draw_calendar_title_cmd draw_week_header_exact draw_calendar_grid_exact ds
        time_text_fits [OF assms(7-10)])
  then show ?thesis
    using ds week_header_exact_length grid_exact_length by blast
qed

text \<open>The page of 15 February 2024, 09:05.\<close>

theorem draw_calendar_page_order_witness:
  "transformTime (sample_ext sample_tm) 1707987900 = sample_tm
   \<and> (2024 :: u16) = word_of_int (tm_year sample_tm + YEAR0 (sample_ext sample_tm))
   \<and> (2 :: u8) = word_of_int (tm_mon sample_tm + 1)
   \<and> (15 :: u8) = word_of_int (tm_mday sample_tm)
   \<and> 0 \<le> tm_mon sample_tm \<and> tm_mon sample_tm \<le> 11
   \<and> 0 \<le> tm_hour sample_tm \<and> tm_hour sample_tm \<le> 23
   \<and> 0 \<le> tm_min sample_tm \<and> tm_min sample_tm \<le> 59
   \<and> unat (is_leap (sample_ext sample_tm) 2024) < 2
   \<and> draw_calendar_page (sample_ext sample_tm) 1707987900 [] =
       Inr ([Paint_Clear WHITE,
             EPD_DrawUTF8 50 2 1 (title_text 2024 2) EPD_ASCII_11X16 EPD_FontUTF8_16x16
               BLACK WHITE]
            @ week_header_exact @ grid_exact @ dates_exact 4 29 15
            @ [EPD_DrawUTF8 150 115 1 ''09:05'' EPD_ASCII_11X16 EPD_FontUTF8_16x16
                 BLACK WHITE])"
proof -
  have h: "transformTime (sample_ext sample_tm) 1707987900 = sample_tm"
    "(2024 :: u16) = word_of_int (tm_year sample_tm + YEAR0 (sample_ext sample_tm))"
    "(2 :: u8) = word_of_int (tm_mon sample_tm + 1)"
    "(15 :: u8) = word_of_int (tm_mday sample_tm)"
    "0 \<le> tm_mon sample_tm" "tm_mon sample_tm \<le> 11"
    "0 \<le> tm_hour sample_tm" "tm_hour sample_tm \<le> 23"
    "0 \<le> tm_min sample_tm" "tm_min sample_tm \<le> 59"
    "unat (is_leap (sample_ext sample_tm) 2024) < 2"
    by (simp_all add: sample_ext_def sample_tm_def gregorian_leap_def)
  from draw_calendar_page_order [OF h, of "[]"]
  obtain ds where
    a: "\<And>cv'. draw_calendar_dates (sample_ext sample_tm) 2024 2 15 cv' = Inr (cv' @ ds)"
    and b: "draw_calendar_page (sample_ext sample_tm) 1707987900 [] =
         Inr ([] @ [Paint_Clear WHITE,
                    EPD_DrawUTF8 50 2 1 (title_text 2024 2) EPD_ASCII_11X16
                      EPD_FontUTF8_16x16 BLACK WHITE]
                 @ week_header_exact @ grid_exact @ ds
                 @ [EPD_DrawUTF8 150 115 1 (time_text sample_tm) EPD_ASCII_11X16
                      EPD_FontUTF8_16x16 BLACK WHITE])"
    by blast
  have "ds = dates_exact 4 29 15"
    using a [of "[]"] sample_dates [of "[]"] by simp
  then show ?thesis
    using h b by (simp add: sample_time_text)
qed

end
